theory Spec2Isabelle
  imports Main "HOL-Library.Signed_Division"
begin

section \<open>The pseudo-random generator (randomvar.cpp)\<close>

text \<open>
  \<^verbatim>\<open>typedef long int RandNum\<close>. Its values are modelled as mathematical integers;
  \<^verbatim>\<open>/\<close> and \<^verbatim>\<open>%\<close> are the truncating operators of C++, \<open>sdiv\<close> and \<open>smod\<close>. No value
  computed below leaves the range of a 64-bit \<^verbatim>\<open>long\<close>.
\<close>

type_synonym RandNum = int

definition RandomGen_A :: RandNum where "RandomGen_A = 16807"
definition RandomGen_M :: RandNum where "RandomGen_M = 2147483647"
definition RandomGen_Q :: RandNum where "RandomGen_Q = 127773"
definition RandomGen_R :: RandNum where "RandomGen_R = 2836"

record RandomGen =
  seed :: RandNum
  xn :: RandNum

text \<open>The constructor \<^verbatim>\<open>RandomGen(RandNum s) : _seed(s), _xn(s)\<close>.\<close>

definition RandomGen_new :: "RandNum \<Rightarrow> RandomGen" where
  "RandomGen_new s = \<lparr>seed = s, xn = s\<rparr>"

text \<open>\<^verbatim>\<open>sample()\<close>: the value returned and the generator after the call.\<close>

definition sample :: "RandomGen \<Rightarrow> RandNum \<times> RandomGen" where
  "sample g =
     (let xq = xn g sdiv RandomGen_Q;
          xr = xn g smod RandomGen_Q;
          x1 = RandomGen_A * xr - RandomGen_R * xq;
          x2 = (if x1 < 0 then x1 + RandomGen_M else x1)
      in (x2, g\<lparr>xn := x2\<rparr>))"

text \<open>\<^verbatim>\<open>init(s)\<close>: \<^verbatim>\<open>_xn = _seed = s\<close>.\<close>

definition init :: "RandNum \<Rightarrow> RandomGen \<Rightarrow> RandomGen" where
  "init s g = g\<lparr>seed := s, xn := s\<rparr>"

text \<open>The first \<open>n\<close> results of successive calls of \<^verbatim>\<open>sample()\<close>.\<close>

fun samples :: "nat \<Rightarrow> RandomGen \<Rightarrow> RandNum list" where
  "samples 0 g = []"
| "samples (Suc n) g = fst (sample g) # samples n (snd (sample g))"


section \<open>Deterministic variables (randomvar.cpp)\<close>

text \<open>
  An access outside a \<^verbatim>\<open>std::vector\<close> does not raise in C++: it is undefined
  behaviour. The model makes it a value, \<open>OutOfBounds i\<close>, and the computation stops there.
\<close>

datatype fault = OutOfBounds nat





section \<open>The factory of periodic tasks (rttask.cpp)\<close>

text \<open>
  \<^verbatim>\<open>Tick\<close> (tick.hpp, not among the sources) is an integer count of ticks. Times are
  only compared, assigned and added to a delay here, so they are integers.
\<close>

type_synonym Tick = int

record PeriodicTask =
  arrival :: Tick
  rdl :: Tick
  ph :: Tick
  name :: string
  qs :: int
  period :: Tick

text \<open>
  \<^verbatim>\<open>PeriodicTask(iat, rdl, ph, name, qs) : Task(new DeltaVar(iat), rdl, ph, name, qs),
  period(iat)\<close>.
\<close>

definition PeriodicTask_new :: "Tick \<Rightarrow> Tick \<Rightarrow> Tick \<Rightarrow> string \<Rightarrow> int \<Rightarrow> PeriodicTask" where
  "PeriodicTask_new i d p n q =
     \<lparr>arrival = i, rdl = d, ph = p, name = n, qs = q, period = i\<rparr>"

text \<open>
  A computation that reads the parameter vector: it carries the list of the indices
  read so far, and stops at the first read outside the vector.
\<close>

type_synonym 'a reading = "nat list \<Rightarrow> (fault + 'a) \<times> nat list"

definition ret :: "'a \<Rightarrow> 'a reading" where
  "ret v = (\<lambda>l. (Inr v, l))"

definition bind :: "'a reading \<Rightarrow> ('a \<Rightarrow> 'b reading) \<Rightarrow> 'b reading" where
  "bind m f = (\<lambda>l. case m l of (Inl x, l1) \<Rightarrow> (Inl x, l1) | (Inr v, l1) \<Rightarrow> f v l1)"

text \<open>\<^verbatim>\<open>par[i]\<close>.\<close>

definition rd :: "string list \<Rightarrow> nat \<Rightarrow> string reading" where
  "rd par i = (\<lambda>l. (if i < length par then Inr (par ! i) else Inl (OutOfBounds i), l @ [i]))"

text \<open>
  \<^verbatim>\<open>createInstance\<close>. The conversions \<^verbatim>\<open>Tick(const string &)\<close> (tick.hpp, not among the
  sources) and \<^verbatim>\<open>atoi\<close> are parameters. The flag \<^verbatim>\<open>a\<close> is computed and not used.
\<close>

definition createInstance ::
  "(string \<Rightarrow> Tick) \<Rightarrow> (string \<Rightarrow> int) \<Rightarrow> string list \<Rightarrow> (fault + PeriodicTask) \<times> nat list" where
  "createInstance tickOf atoi par =
     bind (rd par 0) (\<lambda>s0.
     bind (rd par 1) (\<lambda>s1.
     bind (rd par 2) (\<lambda>s2.
     bind (if length par > 2 then rd par 3 else ret []) (\<lambda>n.
     bind (if length par > 4 then bind (rd par 4) (\<lambda>s4. ret (atoi s4)) else ret 100) (\<lambda>q.
     bind (if length par > 5 then bind (rd par 5) (\<lambda>s5. ret (s5 \<noteq> ''false'')) else ret True) (\<lambda>a.
     ret (PeriodicTask_new (tickOf s0) (tickOf s1) (tickOf s2) n q))))))) []"

text \<open>A reading of decimal digits, to run the factory on concrete parameters.\<close>

definition digit_val :: "char \<Rightarrow> int" where
  "digit_val c = int (of_char c) - 48"

definition dec_of :: "string \<Rightarrow> int" where
  "dec_of cs = foldl (\<lambda>acc c. 10 * acc + digit_val c) 0 cs"

section \<open>Events and the event queue (event.hpp, event.cpp)\<close>

text \<open>
  An event object is named by its address. Probes (\<^verbatim>\<open>BaseStat *\<close>,
  \<^verbatim>\<open>ParticleInterface *\<close>, \<^verbatim>\<open>Trace *\<close>) are named the same way.
\<close>

type_synonym eid = nat
type_synonym probe = nat

datatype exc =
    NoMoreEventsInQueue
  | PostInPast
  | QueueDuplicate
  | BaseExc string
  | UserExc string

text \<open>
  The body of a handler \<^verbatim>\<open>doit()\<close>, and of the hooks of entities, tasks and kernels, is
  client code. It is modelled as a sequence of calls of the public interface of events:
  \<^verbatim>\<open>post\<close> at an absolute time or at a delay from \<^verbatim>\<open>SIMUL.getTime()\<close>, \<^verbatim>\<open>drop\<close>,
  \<^verbatim>\<open>process\<close>, \<^verbatim>\<open>setPriority\<close>, a draw from the standard generator, and a
  \<^verbatim>\<open>throw\<close>.
\<close>

datatype op =
    Post eid Tick bool
  | PostAfter eid Tick bool
  | Drop eid
  | Process eid bool
  | SetPriority eid int
  | Draw
  | Throw string

record Event =
  order_no :: int
  isInQueue :: bool
  stats :: "probe list"
  particles :: "probe list"
  traces :: "probe list"
  time :: Tick
  lastTime :: Tick
  priority :: int
  std_priority :: int
  disposable :: bool
  doit :: "op list"

definition DEFAULT_PRIORITY :: int where "DEFAULT_PRIORITY = 8"
definition IMMEDIATE_PRIORITY :: int where "IMMEDIATE_PRIORITY = 0"

text \<open>The collaborators of \<^verbatim>\<open>SchedInstr::onEnd\<close> whose calls are recorded.\<close>

datatype callee = OnInstrEnd | DisableThreshold | Dispatch

text \<open>
  What the simulation lets the outside see, in the order it happens: a probe notified
  with an event and the \<^verbatim>\<open>getLastTime()\<close> it reads there, a number drawn, the messages
  on \<^verbatim>\<open>cout\<close> and \<^verbatim>\<open>cerr\<close>, the line \<^verbatim>\<open>Executing event action at time [...]\<close> that
  \<^verbatim>\<open>sim_step\<close> writes on the debug stream with the event it prints, and the calls of
  \<^verbatim>\<open>BaseStat\<close> (basestat.hpp, not among the sources) and of tasks and kernels.
\<close>

datatype obs =
    Probed probe eid Tick
  | Drawn RandNum
  | Cout string
  | CerrNoMoreEvents Tick
  | RunBanner nat
  | Executing eid Tick
  | StatInit int
  | StatNewRun
  | StatEndRun
  | StatEndSim
  | Called callee

text \<open>
  The singleton \<^verbatim>\<open>Simulation\<close> (simul.hpp) with the static members of \<^verbatim>\<open>Event\<close>
  (\<^verbatim>\<open>_eventQueue\<close>, \<^verbatim>\<open>counter\<close>), the event objects, the objects deleted so far, the
  registered entities (each with the bodies of its \<^verbatim>\<open>newRun\<close> and \<^verbatim>\<open>endRun\<close>), the
  standard generator \<^verbatim>\<open>RandomVar::_stdgen\<close>, and what was written out.
\<close>

record Simulation =
  globTime :: Tick
  numRuns :: nat
  actRuns :: nat
  endFlag :: bool
  eventQueue :: "eid list"
  counter :: int
  events :: "eid \<Rightarrow> Event"
  deleted :: "eid list"
  entities :: "(op list \<times> op list) list"
  stdgen :: RandomGen
  outp :: "obs list"

text \<open>A change of one event object; a record written out.\<close>

definition upd :: "eid \<Rightarrow> (Event \<Rightarrow> Event) \<Rightarrow> Simulation \<Rightarrow> Simulation" where
  "upd e f s = s\<lparr>events := (events s)(e := f (events s e))\<rparr>"

definition emit :: "obs list \<Rightarrow> Simulation \<Rightarrow> Simulation" where
  "emit xs s = s\<lparr>outp := outp s @ xs\<rparr>"

text \<open>
  Modelled from the spec: \<^verbatim>\<open>Event::Cmp::operator()\<close> is defined in event.cpp, which is
  not among the sources. Events are ordered by time, then priority, then order of
  insertion.
\<close>

definition Cmp :: "Event \<Rightarrow> Event \<Rightarrow> bool" where
  "Cmp e1 e2 =
     (time e1 < time e2 \<or>
      (time e1 = time e2 \<and>
        (priority e1 < priority e2 \<or>
         (priority e1 = priority e2 \<and> order_no e1 < order_no e2))))"

text \<open>
  Modelled from the spec: \<^verbatim>\<open>priority_list::insert\<close> (plist.hpp, not among the sources)
  keeps the queue ordered by \<^verbatim>\<open>Cmp\<close>: the event goes before the first one it precedes.
\<close>

fun insert_ev :: "(eid \<Rightarrow> Event) \<Rightarrow> eid \<Rightarrow> eid list \<Rightarrow> eid list" where
  "insert_ev h e [] = [e]"
| "insert_ev h e (x # xs) =
     (if Cmp (h e) (h x) then e # x # xs else x # insert_ev h e xs)"

text \<open>
  Modelled from the spec: \<^verbatim>\<open>Event::post\<close> (event.cpp) fails if the time is before the
  global time and fails if the event is in the queue; otherwise it assigns
  \<^verbatim>\<open>order := ++counter\<close>, the time and the disposable flag, and inserts the event.
\<close>

definition post :: "eid \<Rightarrow> Tick \<Rightarrow> bool \<Rightarrow> Simulation \<Rightarrow> exc option \<times> Simulation" where
  "post e myTime disp s =
     (if myTime < globTime s then (Some PostInPast, s)
      else if isInQueue (events s e) then (Some QueueDuplicate, s)
      else
        let c = counter s + 1;
            h = (events s)(e := (events s e)
                  \<lparr>order_no := c, isInQueue := True, time := myTime, disposable := disp\<rparr>)
        in (None, s\<lparr>eventQueue := insert_ev h e (eventQueue s), counter := c, events := h\<rparr>))"

text \<open>
  Modelled from the spec: \<^verbatim>\<open>Event::drop\<close> (event.cpp) extracts the event from the queue
  if it is there, and does not destroy it.
\<close>

definition drop_event :: "eid \<Rightarrow> Simulation \<Rightarrow> Simulation" where
  "drop_event e s =
     upd e (\<lambda>ev. ev\<lparr>isInQueue := False\<rparr>) (s\<lparr>eventQueue := removeAll e (eventQueue s)\<rparr>)"

definition setPriority :: "eid \<Rightarrow> int \<Rightarrow> Simulation \<Rightarrow> Simulation" where
  "setPriority e p s = upd e (\<lambda>ev. ev\<lparr>priority := p\<rparr>) s"

definition restorePriority :: "eid \<Rightarrow> Simulation \<Rightarrow> Simulation" where
  "restorePriority e s = upd e (\<lambda>ev. ev\<lparr>priority := std_priority ev\<rparr>) s"

text \<open>
  Modelled from the spec: \<^verbatim>\<open>Event::process\<close> (event.cpp) is \<^verbatim>\<open>post\<close> at the global
  time with the priority forced to \<^verbatim>\<open>_IMMEDIATE_PRIORITY\<close>, restored afterwards.
\<close>

definition process :: "eid \<Rightarrow> bool \<Rightarrow> Simulation \<Rightarrow> exc option \<times> Simulation" where
  "process e disp s =
     (let s1 = setPriority e IMMEDIATE_PRIORITY s in
      case post e (globTime s1) disp s1 of
        (Some x, s2) \<Rightarrow> (Some x, s2)
      | (None, s2) \<Rightarrow> (None, restorePriority e s2))"

fun exec_op :: "op \<Rightarrow> Simulation \<Rightarrow> exc option \<times> Simulation" where
  "exec_op (Post e t d) s = post e t d s"
| "exec_op (PostAfter e dt d) s = post e (globTime s + dt) d s"
| "exec_op (Drop e) s = (None, drop_event e s)"
| "exec_op (Process e d) s = process e d s"
| "exec_op (SetPriority e p) s = (None, setPriority e p s)"
| "exec_op Draw s =
     (None, emit [Drawn (fst (sample (stdgen s)))] (s\<lparr>stdgen := snd (sample (stdgen s))\<rparr>))"
| "exec_op (Throw m) s = (Some (UserExc m), s)"

text \<open>A body runs its calls in order and stops at the first exception.\<close>

fun exec_ops :: "op list \<Rightarrow> Simulation \<Rightarrow> exc option \<times> Simulation" where
  "exec_ops [] s = (None, s)"
| "exec_ops (x # xs) s =
     (case exec_op x s of
        (Some err, s1) \<Rightarrow> (Some err, s1)
      | (None, s1) \<Rightarrow> exec_ops xs s1)"

text \<open>The probes of an event, in the order \<^verbatim>\<open>action()\<close> notifies them.\<close>

definition probes_of :: "Event \<Rightarrow> probe list" where
  "probes_of ev = stats ev @ particles ev @ traces ev"

definition notify :: "eid \<Rightarrow> Simulation \<Rightarrow> Simulation" where
  "notify e s =
     emit (map (\<lambda>p. Probed p e (lastTime (events s e))) (probes_of (events s e))) s"

text \<open>
  Modelled from the spec: \<^verbatim>\<open>Event::action\<close> (event.cpp) sets \<^verbatim>\<open>lastTime := time\<close>, clears
  \<^verbatim>\<open>inQueue\<close>, invokes \<^verbatim>\<open>doit()\<close>, then notifies the statistics, the particles and the
  traces in the order they were added.
\<close>

definition action :: "eid \<Rightarrow> Simulation \<Rightarrow> exc option \<times> Simulation" where
  "action e s =
     (let s1 = upd e (\<lambda>ev. ev\<lparr>lastTime := time ev, isInQueue := False\<rparr>) s in
      case exec_ops (doit (events s1 e)) s1 of
        (Some x, s2) \<Rightarrow> (Some x, s2)
      | (None, s2) \<Rightarrow> (None, notify e s2))"

text \<open>\<^verbatim>\<open>Event::getFirst\<close>: \<^verbatim>\<open>NULL\<close> on the empty queue, else its front.\<close>

definition getFirst :: "Simulation \<Rightarrow> eid option" where
  "getFirst s = (case eventQueue s of [] \<Rightarrow> None | x # xs \<Rightarrow> Some x)"

text \<open>
  \<^verbatim>\<open>delete temp\<close>. The destructor of \<^verbatim>\<open>Event\<close> is defined in event.cpp, not among the
  sources; the model records the deletion and nothing else.
\<close>

definition delete_event :: "eid \<Rightarrow> Simulation \<Rightarrow> Simulation" where
  "delete_event e s = s\<lparr>deleted := deleted s @ [e]\<rparr>"

section \<open>The simulation driver (simul.cpp)\<close>

definition setTime :: "Tick \<Rightarrow> Simulation \<Rightarrow> Simulation" where
  "setTime t s = s\<lparr>globTime := t\<rparr>"

text \<open>
  \<^verbatim>\<open>sim_step\<close>. An exception leaves the state as it is when it is thrown, so the state
  is returned in both cases. The debug line and \<^verbatim>\<open>temp->print()\<close> are the record
  \<open>Executing\<close>; without \<^verbatim>\<open>__DEBUG__\<close> they write nothing.
\<close>

definition sim_step :: "Simulation \<Rightarrow> (exc + Tick) \<times> Simulation" where
  "sim_step s =
     (case getFirst s of
        None \<Rightarrow> (Inl NoMoreEventsInQueue, s)
      | Some temp \<Rightarrow>
          let s1 = drop_event temp s;
              mytime = time (events s1 temp);
              s2 = setTime mytime (emit [Executing temp mytime] s1)
          in case action temp s2 of
               (Some x, s3) \<Rightarrow> (Inl x, s3)
             | (None, s3) \<Rightarrow>
                 (Inr mytime,
                  if disposable (events s3 temp) then delete_event temp s3 else s3))"

definition getNextEventTime :: "Simulation \<Rightarrow> exc + Tick" where
  "getNextEventTime s =
     (case getFirst s of
        None \<Rightarrow> Inl NoMoreEventsInQueue
      | Some temp \<Rightarrow> Inr (time (events s temp)))"

text \<open>
  The loop of \<^verbatim>\<open>run_to\<close>, \<^verbatim>\<open>while (getNextEventTime() <= stop) globTime = sim_step();\<close>.
  It may run forever (a handler can post at the current time again and again), so it
  takes fuel: \<open>None\<close> is a loop that has not ended when the fuel is spent. Its result is
  the exception it ends with, if any, and the state.
\<close>

fun run_to_loop :: "nat \<Rightarrow> Tick \<Rightarrow> Simulation \<Rightarrow> (exc option \<times> Simulation) option" where
  "run_to_loop 0 stop s = None"
| "run_to_loop (Suc n) stop s =
     (case getNextEventTime s of
        Inl x \<Rightarrow> Some (Some x, s)
      | Inr t \<Rightarrow>
          if t \<le> stop then
            (case sim_step s of
               (Inl x, s1) \<Rightarrow> Some (Some x, s1)
             | (Inr t1, s1) \<Rightarrow> run_to_loop n stop (s1\<lparr>globTime := t1\<rparr>))
          else Some (None, s))"

text \<open>The end of \<^verbatim>\<open>run_to\<close>: \<^verbatim>\<open>if (globTime < stop) globTime = stop; return globTime;\<close>\<close>

definition clamp_to :: "Tick \<Rightarrow> Simulation \<Rightarrow> (exc + Tick) \<times> Simulation" where
  "clamp_to stop s =
     (let s1 = (if globTime s < stop then s\<lparr>globTime := stop\<rparr> else s)
      in (Inr (globTime s1), s1))"

text \<open>
  \<^verbatim>\<open>run_to\<close>: the handler of \<^verbatim>\<open>NoMoreEventsInQueue\<close> writes on \<^verbatim>\<open>cerr\<close>; any other
  exception leaves the function.
\<close>

definition run_to :: "nat \<Rightarrow> Tick \<Rightarrow> Simulation \<Rightarrow> ((exc + Tick) \<times> Simulation) option" where
  "run_to fuel stop s =
     (case run_to_loop fuel stop s of
        None \<Rightarrow> None
      | Some (Some x, s1) \<Rightarrow>
          if x = NoMoreEventsInQueue
          then Some (clamp_to stop (emit [CerrNoMoreEvents (globTime s1)] s1))
          else Some (Inl x, s1)
      | Some (None, s1) \<Rightarrow> Some (clamp_to stop s1))"

text \<open>\<^verbatim>\<open>initRuns\<close>.\<close>

definition initRuns :: "int \<Rightarrow> Simulation \<Rightarrow> Simulation" where
  "initRuns nRuns s = (emit [StatInit nRuns] s)\<lparr>globTime := 0, endFlag := False\<rparr>"

text \<open>
  The loop of \<^verbatim>\<open>clearEventQueue\<close>: while the queue has a first event, drop it, and delete
  it if it is disposable.
\<close>

function clear_loop :: "Simulation \<Rightarrow> Simulation" where
  "clear_loop s =
     (case getFirst s of
        None \<Rightarrow> s
      | Some temp \<Rightarrow>
          clear_loop
            (if disposable (events (drop_event temp s) temp)
             then delete_event temp (drop_event temp s)
             else drop_event temp s))"
  by pat_completeness auto
termination
proof (relation "measure (\<lambda>s. length (eventQueue s))")
  show "wf (measure (\<lambda>s. length (eventQueue s)))" by simp
next
  fix s temp
  assume "getFirst s = Some temp"
  then have "temp \<in> set (eventQueue s)"
    by (cases "eventQueue s") (auto simp: getFirst_def)
  then have "length (removeAll temp (eventQueue s)) < length (eventQueue s)"
    by (simp add: length_removeAll_less)
  then show "(if disposable (events (drop_event temp s) temp)
         then delete_event temp (drop_event temp s) else drop_event temp s, s)
        \<in> measure (\<lambda>s. length (eventQueue s))"
    by (simp add: drop_event_def delete_event_def upd_def)
qed

declare clear_loop.simps [simp del]

definition clearEventQueue :: "Simulation \<Rightarrow> Simulation" where
  "clearEventQueue s = (clear_loop s)\<lparr>globTime := 0\<rparr>"

text \<open>
  Modelled from the spec: \<^verbatim>\<open>Entity::callNewRun\<close> and \<^verbatim>\<open>Entity::callEndRun\<close> (entity.cpp,
  not among the sources) invoke the hook of every entity in the order of registration;
  an exception from a hook is propagated after \<^verbatim>\<open>clearEventQueue\<close>.
\<close>

fun call_hooks :: "op list list \<Rightarrow> Simulation \<Rightarrow> exc option \<times> Simulation" where
  "call_hooks [] s = (None, s)"
| "call_hooks (h # hs) s =
     (case exec_ops h s of
        (Some x, s1) \<Rightarrow> (Some x, clearEventQueue s1)
      | (None, s1) \<Rightarrow> call_hooks hs s1)"

definition callNewRun :: "Simulation \<Rightarrow> exc option \<times> Simulation" where
  "callNewRun s = call_hooks (map fst (entities s)) s"

definition callEndRun :: "Simulation \<Rightarrow> exc option \<times> Simulation" where
  "callEndRun s = call_hooks (map snd (entities s)) s"

text \<open>\<^verbatim>\<open>initSingleRun\<close> and \<^verbatim>\<open>endSingleRun\<close>.\<close>

definition initSingleRun :: "Simulation \<Rightarrow> exc option \<times> Simulation" where
  "initSingleRun s =
     (case callNewRun (s\<lparr>globTime := 0\<rparr>) of
        (Some x, s1) \<Rightarrow> (Some x, s1)
      | (None, s1) \<Rightarrow> (None, emit [StatNewRun] s1))"

definition endSingleRun :: "Simulation \<Rightarrow> exc option \<times> Simulation" where
  "endSingleRun s =
     (case callEndRun s of
        (Some x, s1) \<Rightarrow> (Some x, s1)
      | (None, s1) \<Rightarrow> (None, clearEventQueue (emit [StatEndRun] s1)))"

text \<open>
  The main cycle of \<^verbatim>\<open>run\<close>, \<^verbatim>\<open>while (globTime < endTick) globTime = sim_step();\<close>, with
  fuel as in \<open>run_to_loop\<close>.
\<close>

fun main_cycle :: "nat \<Rightarrow> Tick \<Rightarrow> Simulation \<Rightarrow> (exc option \<times> Simulation) option" where
  "main_cycle 0 endTick s = None"
| "main_cycle (Suc n) endTick s =
     (if globTime s < endTick then
        (case sim_step s of
           (Inl x, s1) \<Rightarrow> Some (Some x, s1)
         | (Inr t, s1) \<Rightarrow> main_cycle n endTick (s1\<lparr>globTime := t\<rparr>))
      else Some (None, s))"

text \<open>
  One replica: the body of \<^verbatim>\<open>while (actRuns < numRuns)\<close>. The handler of
  \<^verbatim>\<open>NoMoreEventsInQueue\<close> writes on \<^verbatim>\<open>cerr\<close>; any other exception leaves \<^verbatim>\<open>run\<close>.
\<close>

definition replica :: "nat \<Rightarrow> Tick \<Rightarrow> Simulation \<Rightarrow> (exc option \<times> Simulation) option" where
  "replica fuel endTick s =
     (case initSingleRun (emit [RunBanner (actRuns s)] s) of
        (Some x, s1) \<Rightarrow> Some (Some x, s1)
      | (None, s1) \<Rightarrow>
          (case main_cycle fuel endTick s1 of
             None \<Rightarrow> None
           | Some (r, s2) \<Rightarrow>
               if r \<noteq> None \<and> r \<noteq> Some NoMoreEventsInQueue then Some (r, s2)
               else
                 (case endSingleRun
                         (if r = None then s2 else emit [CerrNoMoreEvents (globTime s2)] s2) of
                    (Some x, s3) \<Rightarrow> Some (Some x, s3)
                  | (None, s3) \<Rightarrow> Some (None, s3\<lparr>actRuns := actRuns s3 + 1\<rparr>))))"

text \<open>
  The loop \<^verbatim>\<open>while (actRuns < numRuns)\<close>. Client code cannot reach the private counters
  and each replica adds one to \<^verbatim>\<open>actRuns\<close>, so the loop is a recursion on the number of
  replicas still to run.
\<close>

fun replicas :: "nat \<Rightarrow> nat \<Rightarrow> Tick \<Rightarrow> Simulation \<Rightarrow> (exc option \<times> Simulation) option" where
  "replicas 0 fuel endTick s = Some (None, s)"
| "replicas (Suc k) fuel endTick s =
     (case replica fuel endTick s of
        None \<Rightarrow> None
      | Some (Some x, s1) \<Rightarrow> Some (Some x, s1)
      | Some (None, s1) \<Rightarrow> replicas k fuel endTick s1)"

text \<open>
  The beginning of \<^verbatim>\<open>run\<close>: the decoding of \<^verbatim>\<open>nRuns\<close>. It gives the two flags
  \<^verbatim>\<open>initializeRuns\<close> and \<^verbatim>\<open>terminateSim\<close>, the local \<^verbatim>\<open>nRuns\<close> as the assignments leave
  it, and the state with \<^verbatim>\<open>numRuns\<close> set.
\<close>

definition run_decode :: "int \<Rightarrow> Simulation \<Rightarrow> bool \<times> bool \<times> int \<times> Simulation" where
  "run_decode nRuns s =
     (let (initializeRuns, terminateSim, nRuns1, s1) =
        (if nRuns < - 1 then
           (True, False, - nRuns, (emit [Cout ''Initialize stats''] s)\<lparr>numRuns := 1\<rparr>)
         else if nRuns = - 1 then
           (False, False, nRuns, (emit [Cout ''Will not initialize stats''] s)\<lparr>numRuns := 1\<rparr>)
         else if nRuns = 0 then
           (False, True, nRuns, (emit [Cout ''Last Sim in the batch''] s)\<lparr>numRuns := 1\<rparr>)
         else if nRuns = 1 then
           (True, True, nRuns, (emit [Cout ''One single run''] s)\<lparr>numRuns := 1\<rparr>)
         else (True, True, nRuns, s\<lparr>numRuns := nat nRuns\<rparr>));
          s2 = (if numRuns s1 = 2
                then (emit [Cout ''Warning: Simulation cannot be initialized with 2 runs'',
                            Cout ''         Executing 3 runs!''] s1)\<lparr>numRuns := 3\<rparr>
                else s1)
      in (initializeRuns, terminateSim, nRuns1, s2))"

text \<open>\<^verbatim>\<open>endSim\<close>.\<close>

definition endSim :: "Simulation \<Rightarrow> Simulation" where
  "endSim s = emit [StatEndSim] s"

text \<open>\<^verbatim>\<open>run\<close>.\<close>

definition run :: "nat \<Rightarrow> Tick \<Rightarrow> int \<Rightarrow> Simulation \<Rightarrow> (exc option \<times> Simulation) option" where
  "run fuel endTick nRuns s =
     (let (initializeRuns, terminateSim, nRuns1, s1) = run_decode nRuns s;
          s2 = (if initializeRuns then initRuns (int (numRuns s1)) s1 else s1);
          s3 = s2\<lparr>actRuns := 0\<rparr>
      in case replicas (numRuns s3 - actRuns s3) fuel endTick s3 of
           None \<Rightarrow> None
         | Some (Some x, s4) \<Rightarrow> Some (Some x, s4)
         | Some (None, s4) \<Rightarrow>
             Some (None, if terminateSim then endSim (s4\<lparr>endFlag := True\<rparr>)
                         else s4\<lparr>endFlag := True\<rparr>))"

section \<open>The scheduling instruction (schedinstr.cpp)\<close>

text \<open>
  What \<^verbatim>\<open>_father->getKernel()\<close> points to: nothing, a kernel that is not an
  \<^verbatim>\<open>RTKernel\<close>, or an \<^verbatim>\<open>RTKernel\<close>. The \<^verbatim>\<open>dynamic_cast\<close> gives \<^verbatim>\<open>NULL\<close> in the first two
  cases.
\<close>

datatype kernel = NoKernel | OtherKernel | RTKernel




section \<open>What the properties are stated with\<close>

text \<open>The parts of the output: probes notified, numbers drawn, events executed, calls.\<close>

fun probed :: "obs list \<Rightarrow> (probe \<times> eid \<times> Tick) list" where
  "probed [] = []"
| "probed (Probed p e t # xs) = (p, e, t) # probed xs"
| "probed (x # xs) = probed xs"

fun drawn :: "obs list \<Rightarrow> RandNum list" where
  "drawn [] = []"
| "drawn (Drawn v # xs) = v # drawn xs"
| "drawn (x # xs) = drawn xs"

fun executed :: "obs list \<Rightarrow> (eid \<times> Tick) list" where
  "executed [] = []"
| "executed (Executing e t # xs) = (e, t) # executed xs"
| "executed (x # xs) = executed xs"

fun called :: "obs list \<Rightarrow> callee list" where
  "called [] = []"
| "called (Called c # xs) = c # called xs"
| "called (x # xs) = called xs"

fun stat_inits :: "obs list \<Rightarrow> int list" where
  "stat_inits [] = []"
| "stat_inits (StatInit n # xs) = n # stat_inits xs"
| "stat_inits (x # xs) = stat_inits xs"

text \<open>The generator after \<open>k\<close> calls of \<^verbatim>\<open>sample()\<close>.\<close>

fun advance :: "nat \<Rightarrow> RandomGen \<Rightarrow> RandomGen" where
  "advance 0 g = g"
| "advance (Suc k) g = advance k (snd (sample g))"

text \<open>
  Between two states the generator continues: the numbers drawn in between are the
  next ones of its sequence, and its state is the one after them.
\<close>

definition rng_continues :: "Simulation \<Rightarrow> Simulation \<Rightarrow> bool" where
  "rng_continues s s' =
     (let k = length (drawn (outp s')) - length (drawn (outp s))
      in stdgen s' = advance k (stdgen s)
         \<and> drawn (outp s') = drawn (outp s) @ samples k (stdgen s))"

text \<open>The queue is ordered by \<^verbatim>\<open>Cmp\<close>, and its events are flagged and numbered.\<close>

definition queue_ok :: "Simulation \<Rightarrow> bool" where
  "queue_ok s =
     (sorted_wrt (\<lambda>a b. Cmp (events s a) (events s b)) (eventQueue s)
      \<and> list_all (\<lambda>x. isInQueue (events s x) \<and> order_no (events s x) \<le> counter s)
            (eventQueue s))"

text \<open>In the queue \<open>q\<close> the event \<open>a\<close> comes before the event \<open>b\<close>.\<close>

definition comes_before :: "eid \<Rightarrow> eid \<Rightarrow> eid list \<Rightarrow> bool" where
  "comes_before a b q = (a \<in> set (takeWhile (\<lambda>x. x \<noteq> b) q) \<and> b \<in> set q)"

text \<open>
  Modelled from the spec: the constructor \<^verbatim>\<open>Event(int p)\<close> (event.cpp) keeps \<open>p\<close> as the
  priority and the standard priority; the event is not in the queue and has no probe.
  The body of \<^verbatim>\<open>doit()\<close> is the subclass's.
\<close>

definition Event_new :: "int \<Rightarrow> op list \<Rightarrow> Event" where
  "Event_new p body =
     \<lparr>order_no = 0, isInQueue = False, stats = [], particles = [], traces = [],
      time = 0, lastTime = 0, priority = p, std_priority = p, disposable = False,
      doit = body\<rparr>"

text \<open>
  The constructor \<^verbatim>\<open>Simulation()\<close>, with the empty queue, the standard generator
  \<^verbatim>\<open>RandomVar::_stdgen(1)\<close>, and the event objects and entities of the client.
\<close>

definition Simulation_new :: "(eid \<Rightarrow> Event) \<Rightarrow> (op list \<times> op list) list \<Rightarrow> Simulation" where
  "Simulation_new evs ents =
     \<lparr>globTime = 0, numRuns = 0, actRuns = 0, endFlag = False, eventQueue = [],
      counter = 0, events = evs, deleted = [], entities = ents,
      stdgen = RandomGen_new 1, outp = []\<rparr>"

text \<open>
  What client code cannot change of an event and of the output: the firing time kept in
  \<^verbatim>\<open>_lastTime\<close>, the probes attached, and the notifications already made.
\<close>

definition kept :: "eid \<Rightarrow> Simulation \<Rightarrow> Tick \<times> probe list \<times> (probe \<times> eid \<times> Tick) list" where
  "kept e s = (lastTime (events s e), probes_of (events s e), probed (outp s))"

text \<open>
  What client code cannot change of the driver: its private members, the objects
  deleted, the entities registered, and the steps, calls and initialisations recorded.
\<close>

definition driver_view ::
  "Simulation \<Rightarrow> Tick \<times> nat \<times> nat \<times> bool \<times> eid list \<times> (op list \<times> op list) list
     \<times> (eid \<times> Tick) list \<times> callee list \<times> int list" where
  "driver_view s =
     (globTime s, numRuns s, actRuns s, endFlag s, deleted s, entities s,
      executed (outp s), called (outp s), stat_inits (outp s))"

text \<open>
  The state in which \<^verbatim>\<open>sim_step\<close> calls \<^verbatim>\<open>action()\<close> on the first event: the event
  dropped, the step recorded, the global time set to the time of the event.
\<close>

definition fired :: "eid \<Rightarrow> Simulation \<Rightarrow> Simulation" where
  "fired temp s =
     setTime (time (events s temp))
       (emit [Executing temp (time (events s temp))] (drop_event temp s))"

text \<open>What the generator shows: its state and the numbers drawn so far.\<close>

definition rng_view :: "Simulation \<Rightarrow> RandomGen \<times> RandNum list" where
  "rng_view s = (stdgen s, drawn (outp s))"

text \<open>
  What client code and the steps of a replica cannot change of a run: the counters of
  replicas and the calls of \<^verbatim>\<open>BaseStat::init\<close> and \<^verbatim>\<open>BaseStat::endSim\<close> made so far.
\<close>

definition runs_view :: "Simulation \<Rightarrow> nat \<times> nat \<times> int list \<times> nat" where
  "runs_view s =
     (numRuns s, actRuns s, stat_inits (outp s), length (filter (\<lambda>x. x = StatEndSim) (outp s)))"

text \<open>
  The modes of \<^verbatim>\<open>run\<close> as the code decodes \<^verbatim>\<open>nRuns\<close>: the number of replicas, the
  arguments of the calls of \<^verbatim>\<open>BaseStat::init\<close>, and whether \<^verbatim>\<open>endSim\<close> is called.
\<close>

definition mode_runs :: "int \<Rightarrow> nat" where
  "mode_runs nRuns = (if 3 \<le> nRuns then nat nRuns else if nRuns = 2 then 3 else 1)"

definition mode_inits :: "int \<Rightarrow> int list" where
  "mode_inits nRuns = (if nRuns = 0 \<or> nRuns = - 1 then [] else [int (mode_runs nRuns)])"

definition mode_terminates :: "int \<Rightarrow> bool" where
  "mode_terminates nRuns = (0 \<le> nRuns)"

section \<open>Scenarios\<close>

text \<open>Two events of default priority, posted at time 10 one after the other.\<close>

definition scenario_two :: Simulation where
  "scenario_two = Simulation_new (\<lambda>i. Event_new DEFAULT_PRIORITY []) []"

definition scenario_A :: Simulation where
  "scenario_A = snd (post 0 10 False scenario_two)"

definition scenario_AB :: Simulation where
  "scenario_AB = snd (post 1 10 False scenario_A)"

text \<open>
  An event with a probe, posted at time 10, whose handler posts it again at time 20;
  the state is the one in which \<^verbatim>\<open>sim_step\<close> calls its \<^verbatim>\<open>action()\<close>.
\<close>

definition scenario_repost :: Simulation where
  "scenario_repost =
     fired 0 (snd (post 0 10 False
       (Simulation_new
          (\<lambda>i. if i = 0 then (Event_new DEFAULT_PRIORITY [Post 0 20 False])\<lparr>stats := [7]\<rparr>
                else Event_new DEFAULT_PRIORITY []) [])))"


text \<open>
  An entity whose \<^verbatim>\<open>newRun\<close> posts the event 0 at time 0; the handler of the event draws
  a number and posts the event again 7 ticks later.
\<close>

definition scenario_rng :: Simulation where
  "scenario_rng =
     Simulation_new (\<lambda>i. Event_new DEFAULT_PRIORITY [Draw, PostAfter 0 7 False])
       [([Post 0 0 False], [])]"




section \<open>Properties of the generator\<close>
















section \<open>Properties of deterministic variables\<close>




section \<open>Properties of the factory of periodic tasks\<close>

lemmas reading_defs = createInstance_def bind_def rd_def ret_def

lemma createInstance_three:
  "length par = 3 \<Longrightarrow>
   createInstance tickOf atoi par = (Inl (OutOfBounds 3), [0, 1, 2, 3])"
  by (simp add: reading_defs)

lemma createInstance_short:
  "length par \<le> 2 \<Longrightarrow>
   createInstance tickOf atoi par = (Inl (OutOfBounds (length par)), [0..<length par + 1])"
proof (cases par)
  case Nil
  then show ?thesis by (simp add: reading_defs)
next
  case (Cons x xs)
  assume le: "length par \<le> 2"
  show ?thesis
  proof (cases xs)
    case Nil
    with Cons show ?thesis by (simp add: reading_defs upt_rec)
  next
    case (Cons y ys)
    with le \<open>par = x # xs\<close> have "ys = []" by simp
    with Cons \<open>par = x # xs\<close> show ?thesis by (simp add: reading_defs upt_rec)
  qed
qed

lemma createInstance_long:
  "4 \<le> length par \<Longrightarrow>
   createInstance tickOf atoi par =
     (Inr (PeriodicTask_new (tickOf (par ! 0)) (tickOf (par ! 1)) (tickOf (par ! 2)) (par ! 3)
            (if length par > 4 then atoi (par ! 4) else 100)),
      [0, 1, 2, 3] @ (if length par > 4 then [4] else []) @ (if length par > 5 then [5] else []))"
  by (auto simp add: reading_defs)

text \<open>
  C9: \<^verbatim>\<open>PeriodicTask::createInstance\<close> reads \<^verbatim>\<open>par[0]\<close>, \<^verbatim>\<open>par[1]\<close>, \<^verbatim>\<open>par[2]\<close> without a
  guard (with fewer than three parameters the first missing one is read outside the
  vector), and reads \<^verbatim>\<open>par[3]\<close> exactly when \<^verbatim>\<open>par.size() > 2\<close>; that read is inside the
  vector only from four parameters on, so a call with exactly three parameters reads
  outside the vector under the guard.
\<close>

theorem createInstance_reads:
  "(length par \<le> 2 \<longrightarrow>
      createInstance tickOf atoi par
        = (Inl (OutOfBounds (length par)), [0..<length par + 1]))
   \<and> (length par = 3 \<longrightarrow>
      createInstance tickOf atoi par = (Inl (OutOfBounds 3), [0, 1, 2, 3]))
   \<and> (4 \<le> length par \<longrightarrow>
      (\<exists>t. fst (createInstance tickOf atoi par) = Inr t)
      \<and> take 4 (snd (createInstance tickOf atoi par)) = [0, 1, 2, 3])
   \<and> (3 \<in> set (snd (createInstance tickOf atoi par)) \<longleftrightarrow> 2 < length par)"
proof -
  consider "length par \<le> 2" | "length par = 3" | "4 \<le> length par" by arith
  then show ?thesis
  proof cases
    case 1
    then show ?thesis using createInstance_short [OF 1, of tickOf atoi] by auto
  next
    case 2
    then show ?thesis using createInstance_three [OF 2, of tickOf atoi] by simp
  next
    case 3
    then show ?thesis using createInstance_long [OF 3, of tickOf atoi] by simp
  qed
qed

theorem createInstance_reads_witness:
  "length [''10'', ''20''] \<le> 2
   \<and> createInstance dec_of dec_of [''10'', ''20''] = (Inl (OutOfBounds 2), [0, 1, 2])
   \<and> length [''10'', ''20'', ''0''] = 3
   \<and> createInstance dec_of dec_of [''10'', ''20'', ''0''] = (Inl (OutOfBounds 3), [0, 1, 2, 3])
   \<and> 4 \<le> length [''10'', ''20'', ''0'', ''t1'']
   \<and> take 4 (snd (createInstance dec_of dec_of [''10'', ''20'', ''0'', ''t1''])) = [0, 1, 2, 3]"
  using createInstance_reads [of "[''10'', ''20'']" dec_of dec_of]
    createInstance_reads [of "[''10'', ''20'', ''0'']" dec_of dec_of]
    createInstance_reads [of "[''10'', ''20'', ''0'', ''t1'']" dec_of dec_of]
  by (simp add: upt_rec)

section \<open>Properties of events\<close>

lemmas ev_defs = post_def drop_event_def setPriority_def restorePriority_def process_def
  upd_def emit_def

lemma probed_append: "probed (xs @ ys) = probed xs @ probed ys"
  by (induction xs rule: probed.induct) simp_all

lemma drawn_append: "drawn (xs @ ys) = drawn xs @ drawn ys"
  by (induction xs rule: drawn.induct) simp_all



lemma stat_inits_append: "stat_inits (xs @ ys) = stat_inits xs @ stat_inits ys"
  by (induction xs rule: stat_inits.induct) simp_all

lemma probed_map_Probed: "probed (map (\<lambda>p. Probed p e t) ps) = map (\<lambda>p. (p, e, t)) ps"
  by (induction ps) simp_all

lemma post_kept: "kept e (snd (post a t d s)) = kept e s"
  by (simp add: kept_def post_def Let_def probes_of_def)

lemma process_kept: "kept e (snd (process a d s)) = kept e s"
  by (simp add: kept_def ev_defs Let_def probes_of_def split: prod.splits option.splits)

lemma exec_op_kept: "kept e (snd (exec_op x s)) = kept e s"
proof (cases x)
  case (Post a t d) then show ?thesis by (simp add: post_kept)
next
  case (PostAfter a t d) then show ?thesis by (simp add: post_kept)
next
  case (Drop a) then show ?thesis by (simp add: kept_def ev_defs probes_of_def)
next
  case (Process a d) then show ?thesis by (simp add: process_kept)
next
  case (SetPriority a p) then show ?thesis by (simp add: kept_def ev_defs probes_of_def)
next
  case Draw then show ?thesis by (simp add: kept_def ev_defs probes_of_def probed_append)
next
  case (Throw m) then show ?thesis by simp
qed

lemma exec_ops_kept: "kept e (snd (exec_ops xs s)) = kept e s"
proof (induction xs arbitrary: s)
  case Nil
  then show ?case by simp
next
  case (Cons x xs)
  show ?case
  proof (cases "exec_op x s")
    case (Pair r s1)
    then have k: "kept e s1 = kept e s" using exec_op_kept [of e x s] by simp
    show ?thesis
    proof (cases r)
      case None
      with Pair show ?thesis using Cons.IH [of s1] k by simp
    next
      case (Some err)
      with Pair show ?thesis using k by simp
    qed
  qed
qed

lemma exec_ops_append:
  "exec_ops (xs @ ys) s =
     (case exec_ops xs s of (Some err, s1) \<Rightarrow> (Some err, s1) | (None, s1) \<Rightarrow> exec_ops ys s1)"
  by (induction xs arbitrary: s) (auto split: prod.splits option.splits)

text \<open>
  C1: when \<^verbatim>\<open>action()\<close> of an event whose time is \<open>T\<close> returns, \<^verbatim>\<open>_lastTime\<close> is \<open>T\<close> and
  every probe of the event (statistics, particles, traces, in this order) has been
  notified reading \<^verbatim>\<open>getLastTime() = T\<close>, whatever the handler did; in particular when
  the handler ends by posting its own event at \<open>t'\<close>, the time of the event is \<open>t'\<close> and
  the probes still read \<open>T\<close>.
\<close>

theorem action_probes_read_firing_time:
  assumes "action e s = (None, s')"
  shows "lastTime (events s' e) = time (events s e)
    \<and> probed (outp s') = probed (outp s) @ map (\<lambda>p. (p, e, time (events s e))) (probes_of (events s e))
    \<and> (doit (events s e) = pre @ [Post e t' d] \<longrightarrow>
           time (events s' e) = t' \<and> isInQueue (events s' e))"
proof -
  let ?s1 = "upd e (\<lambda>ev. ev\<lparr>lastTime := time ev, isInQueue := False\<rparr>) s"
  obtain r s2 where ex: "exec_ops (doit (events ?s1 e)) ?s1 = (r, s2)" by (cases "exec_ops (doit (events ?s1 e)) ?s1")
  with assms have r: "r = None" and s': "s' = notify e s2"
    by (auto simp: action_def Let_def split: option.splits)
  have k: "kept e s2 = kept e ?s1" using exec_ops_kept [of e "doit (events ?s1 e)" ?s1] ex by simp
  have k1: "kept e ?s1 = (time (events s e), probes_of (events s e), probed (outp s))"
    by (simp add: kept_def upd_def probes_of_def)
  have a: "lastTime (events s' e) = time (events s e)"
    using k k1 by (simp add: s' notify_def emit_def kept_def)
  have b: "probed (outp s') = probed (outp s) @ map (\<lambda>p. (p, e, time (events s e))) (probes_of (events s e))"
    using k k1 by (simp add: s' notify_def emit_def kept_def probed_append probed_map_Probed)
  have c: "time (events s' e) = t' \<and> isInQueue (events s' e)"
    if d: "doit (events s e) = pre @ [Post e t' d]"
  proof -
    have "doit (events ?s1 e) = pre @ [Post e t' d]" using d by (simp add: upd_def)
    with ex r obtain s3 where "exec_ops pre ?s1 = (None, s3)" and p: "post e t' d s3 = (None, s2)"
      by (auto simp: exec_ops_append split: prod.splits option.splits)
    from p have "time (events s2 e) = t' \<and> isInQueue (events s2 e)"
      by (auto simp: post_def Let_def split: if_splits)
    then show ?thesis by (simp add: s' notify_def emit_def)
  qed
  from a b c show ?thesis by blast
qed

section \<open>Properties of the event queue\<close>













section \<open>Properties of a simulation step\<close>





lemma post_not_nomore: "fst (post a t d s) \<noteq> Some NoMoreEventsInQueue"
  by (simp add: post_def Let_def)






lemma time_drop_event: "time (events (drop_event e s) x) = time (events s x)"
  by (simp add: drop_event_def upd_def)

lemma sim_step_head:
  assumes "eventQueue s = temp # q"
  shows "sim_step s =
     (case action temp (fired temp s) of
        (Some x, s3) \<Rightarrow> (Inl x, s3)
      | (None, s3) \<Rightarrow> (Inr (time (events s temp)),
           if disposable (events s3 temp) then delete_event temp s3 else s3))"
  using assms
  by (simp add: sim_step_def getFirst_def fired_def Let_def time_drop_event
      split: prod.splits option.splits)




section \<open>The scenarios, run\<close>

lemmas scen_defs = scenario_two_def scenario_A_def scenario_AB_def scenario_repost_def
  Simulation_new_def Event_new_def DEFAULT_PRIORITY_def IMMEDIATE_PRIORITY_def RandomGen_new_def
  fired_def setTime_def action_def notify_def probes_of_def Cmp_def getFirst_def queue_ok_def
  comes_before_def delete_event_def sim_step_def

theorem action_probes_read_firing_time_witness:
  "action 0 scenario_repost = (None, snd (action 0 scenario_repost))
   \<and> doit (events scenario_repost 0) = [] @ [Post 0 20 False]
   \<and> lastTime (events (snd (action 0 scenario_repost)) 0) = 10
   \<and> time (events (snd (action 0 scenario_repost)) 0) = 20
   \<and> probed (outp (snd (action 0 scenario_repost))) = [(7, 0, 10)]"
proof -
  have e: "action 0 scenario_repost = (None, snd (action 0 scenario_repost))"
    by (simp add: scen_defs ev_defs Let_def prod_eq_iff)
  have d: "doit (events scenario_repost 0) = [] @ [Post 0 20 False]"
    "time (events scenario_repost 0) = 10" "probes_of (events scenario_repost 0) = [7]"
    "probed (outp scenario_repost) = []"
    by (simp_all add: scen_defs ev_defs Let_def)
  show ?thesis
    using action_probes_read_firing_time [OF e, of "[]" 20 False] e d by simp
qed



section \<open>Properties of run_to\<close>









lemma run_to_empty: "eventQueue s = [] \<Longrightarrow> \<exists>r. run_to (Suc n) stop s = Some r"
  by (simp add: run_to_def getNextEventTime_def getFirst_def)


section \<open>The generator across replicas\<close>

lemma length_samples: "length (samples k g) = k"
  by (induction k arbitrary: g) simp_all

lemma samples_add: "samples (j + k) g = samples j g @ samples k (advance j g)"
  by (induction j arbitrary: g) simp_all

lemma advance_add: "advance (j + k) g = advance k (advance j g)"
  by (induction j arbitrary: g) simp_all

lemma seed_sample: "seed (snd (sample g)) = seed g"
  by (simp add: sample_def Let_def)

lemma seed_advance: "seed (advance k g) = seed g"
  by (induction k arbitrary: g) (simp_all add: seed_sample)

lemma rng_continues_iff:
  "rng_continues s s' \<longleftrightarrow>
     (\<exists>k. stdgen s' = advance k (stdgen s)
          \<and> drawn (outp s') = drawn (outp s) @ samples k (stdgen s))"
proof
  assume "rng_continues s s'"
  then show "\<exists>k. stdgen s' = advance k (stdgen s)
          \<and> drawn (outp s') = drawn (outp s) @ samples k (stdgen s)"
    unfolding rng_continues_def Let_def by blast
next
  assume "\<exists>k. stdgen s' = advance k (stdgen s)
          \<and> drawn (outp s') = drawn (outp s) @ samples k (stdgen s)"
  then obtain k where k: "stdgen s' = advance k (stdgen s)"
    "drawn (outp s') = drawn (outp s) @ samples k (stdgen s)" by blast
  then have "length (drawn (outp s')) - length (drawn (outp s)) = k"
    by (simp add: length_samples)
  with k show "rng_continues s s'" by (simp add: rng_continues_def Let_def)
qed

lemma rc_same: "rng_view s' = rng_view s \<Longrightarrow> rng_continues s s'"
  unfolding rng_continues_iff rng_view_def
  by (rule exI [of _ 0]) simp

lemma rc_trans: "rng_continues s s1 \<Longrightarrow> rng_continues s1 s2 \<Longrightarrow> rng_continues s s2"
proof -
  assume "rng_continues s s1" "rng_continues s1 s2"
  then obtain j k where j: "stdgen s1 = advance j (stdgen s)"
    "drawn (outp s1) = drawn (outp s) @ samples j (stdgen s)"
    and k: "stdgen s2 = advance k (stdgen s1)"
    "drawn (outp s2) = drawn (outp s1) @ samples k (stdgen s1)"
    unfolding rng_continues_iff by blast
  have "stdgen s2 = advance (j + k) (stdgen s)" using j k by (simp add: advance_add)
  moreover have "drawn (outp s2) = drawn (outp s) @ samples (j + k) (stdgen s)"
    using j k by (simp add: samples_add)
  ultimately show ?thesis unfolding rng_continues_iff by blast
qed

lemma rc_left: "rng_view s0 = rng_view s \<Longrightarrow> rng_continues s0 s' \<Longrightarrow> rng_continues s s'"
  by (simp add: rng_continues_def rng_view_def)

lemma rc_right: "rng_view s'' = rng_view s' \<Longrightarrow> rng_continues s s' \<Longrightarrow> rng_continues s s''"
  by (simp add: rng_continues_def rng_view_def)

lemma rc_seed: "rng_continues s s' \<Longrightarrow> seed (stdgen s') = seed (stdgen s)"
  unfolding rng_continues_iff by (auto simp: seed_advance)

lemma post_rng: "rng_view (snd (post a t d s)) = rng_view s"
  by (simp add: rng_view_def post_def Let_def)

lemma process_rng: "rng_view (snd (process a d s)) = rng_view s"
  by (simp add: rng_view_def ev_defs Let_def split: prod.splits option.splits)

lemma exec_op_rng: "rng_continues s (snd (exec_op x s))"
proof (cases x)
  case (Post a t d) then show ?thesis by (simp add: rc_same post_rng)
next
  case (PostAfter a t d) then show ?thesis by (simp add: rc_same post_rng)
next
  case (Drop a) then show ?thesis by (simp add: rc_same rng_view_def ev_defs)
next
  case (Process a d) then show ?thesis by (simp add: rc_same process_rng)
next
  case (SetPriority a p) then show ?thesis by (simp add: rc_same rng_view_def ev_defs)
next
  case Draw
  have "stdgen (snd (exec_op Draw s)) = advance 1 (stdgen s)
      \<and> drawn (outp (snd (exec_op Draw s))) = drawn (outp s) @ samples 1 (stdgen s)"
    by (simp add: emit_def drawn_append)
  with Draw show ?thesis unfolding rng_continues_iff by blast
next
  case (Throw m) then show ?thesis by (simp add: rc_same)
qed

lemma exec_ops_rng: "rng_continues s (snd (exec_ops xs s))"
proof (induction xs arbitrary: s)
  case Nil
  then show ?case by (simp add: rc_same)
next
  case (Cons x xs)
  show ?case
  proof (cases "exec_op x s")
    case (Pair r s1)
    then have k: "rng_continues s s1" using exec_op_rng [of s x] by simp
    show ?thesis
    proof (cases r)
      case None
      with Pair show ?thesis using rc_trans [OF k Cons.IH [of s1]] by simp
    next
      case (Some err)
      with Pair show ?thesis using k by simp
    qed
  qed
qed

lemma drawn_map_Probed: "drawn (map (\<lambda>p. Probed p e t) ps) = []"
  by (induction ps) simp_all

lemma notify_rng: "rng_view (notify e s) = rng_view s"
  by (simp add: rng_view_def notify_def emit_def drawn_append drawn_map_Probed)

lemma action_rng: "rng_continues s (snd (action e s))"
proof -
  let ?s1 = "upd e (\<lambda>ev. ev\<lparr>lastTime := time ev, isInQueue := False\<rparr>) s"
  have a: "rng_view ?s1 = rng_view s" by (simp add: rng_view_def upd_def)
  obtain r s2 where ex: "exec_ops (doit (events ?s1 e)) ?s1 = (r, s2)"
    by (cases "exec_ops (doit (events ?s1 e)) ?s1")
  then have "rng_continues ?s1 s2" using exec_ops_rng [of ?s1 "doit (events ?s1 e)"] by simp
  then have b: "rng_continues s s2" using a by (rule rc_left [rotated])
  show ?thesis
  proof (cases r)
    case None
    with ex have "snd (action e s) = notify e s2" by (simp add: action_def Let_def)
    then show ?thesis using rc_right [OF notify_rng b] by simp
  next
    case (Some err)
    with ex have "snd (action e s) = s2" by (simp add: action_def Let_def)
    then show ?thesis using b by simp
  qed
qed

lemma fired_rng: "rng_view (fired e s) = rng_view s"
  by (simp add: rng_view_def fired_def setTime_def emit_def drop_event_def upd_def drawn_append)

lemma sim_step_rng: "rng_continues s (snd (sim_step s))"
proof (cases "eventQueue s")
  case Nil
  then show ?thesis by (simp add: sim_step_def getFirst_def rc_same)
next
  case (Cons temp q)
  obtain x s3 where a: "action temp (fired temp s) = (x, s3)" by (cases "action temp (fired temp s)")
  then have "rng_continues (fired temp s) s3" using action_rng [of "fired temp s" temp] by simp
  then have b: "rng_continues s s3" using fired_rng by (rule rc_left [rotated])
  have "rng_view (snd (sim_step s)) = rng_view s3"
    using a by (cases x) (simp_all add: sim_step_head [OF Cons] rng_view_def delete_event_def)
  then show ?thesis using b by (rule rc_right)
qed

lemma main_cycle_rng: "main_cycle n endTick s = Some (x, s1) \<Longrightarrow> rng_continues s s1"
proof (induction n arbitrary: s)
  case 0
  then show ?case by simp
next
  case (Suc n)
  show ?case
  proof (cases "globTime s < endTick")
    case False
    with Suc.prems show ?thesis by (simp add: rc_same)
  next
    case True
    obtain r s2 where st: "sim_step s = (r, s2)" by (cases "sim_step s")
    then have k: "rng_continues s s2" using sim_step_rng [of s] by simp
    show ?thesis
    proof (cases r)
      case (Inl e)
      with True st Suc.prems show ?thesis using k by simp
    next
      case (Inr t)
      with True st Suc.prems have "main_cycle n endTick (s2\<lparr>globTime := t\<rparr>) = Some (x, s1)" by simp
      then have "rng_continues (s2\<lparr>globTime := t\<rparr>) s1" by (rule Suc.IH)
      then have "rng_continues s2 s1" by (rule rc_left [rotated]) (simp add: rng_view_def)
      with k show ?thesis by (rule rc_trans)
    qed
  qed
qed

lemma clear_loop_rng: "rng_view (clear_loop s) = rng_view s"
proof (induction s rule: clear_loop.induct)
  case (1 s)
  show ?case
  proof (cases "getFirst s")
    case None
    then show ?thesis by (subst clear_loop.simps) simp
  next
    case (Some temp)
    let ?s1 = "if disposable (events (drop_event temp s) temp)
             then delete_event temp (drop_event temp s) else drop_event temp s"
    have "rng_view ?s1 = rng_view s" by (simp add: rng_view_def delete_event_def drop_event_def upd_def)
    moreover have "clear_loop s = clear_loop ?s1" using Some by (subst clear_loop.simps) simp
    ultimately show ?thesis using "1.IH" [OF Some] by simp
  qed
qed

lemma clearEventQueue_rng: "rng_view (clearEventQueue s) = rng_view s"
  using clear_loop_rng [of s] by (simp add: clearEventQueue_def rng_view_def)

lemma call_hooks_rng: "rng_continues s (snd (call_hooks hs s))"
proof (induction hs arbitrary: s)
  case Nil
  then show ?case by (simp add: rc_same)
next
  case (Cons h hs)
  obtain r s1 where ex: "exec_ops h s = (r, s1)" by (cases "exec_ops h s")
  then have k: "rng_continues s s1" using exec_ops_rng [of s h] by simp
  show ?case
  proof (cases r)
    case None
    with ex show ?thesis using rc_trans [OF k Cons.IH [of s1]] by simp
  next
    case (Some err)
    with ex show ?thesis using rc_right [OF clearEventQueue_rng k] by simp
  qed
qed

lemma initSingleRun_rng: "rng_continues s (snd (initSingleRun s))"
proof -
  let ?s0 = "s\<lparr>globTime := 0\<rparr>"
  obtain r s1 where c: "callNewRun ?s0 = (r, s1)" by (cases "callNewRun ?s0")
  then have "rng_continues ?s0 s1" using call_hooks_rng [of ?s0 "map fst (entities ?s0)"]
    by (simp add: callNewRun_def)
  then have k: "rng_continues s s1" by (rule rc_left [rotated]) (simp add: rng_view_def)
  show ?thesis using c k
    by (cases r) (auto simp: initSingleRun_def intro: rc_right [rotated] simp: rng_view_def emit_def drawn_append)
qed

lemma endSingleRun_rng: "rng_continues s (snd (endSingleRun s))"
proof -
  obtain r s1 where c: "callEndRun s = (r, s1)" by (cases "callEndRun s")
  then have k: "rng_continues s s1" using call_hooks_rng [of s "map snd (entities s)"]
    by (simp add: callEndRun_def)
  have "rng_view (clearEventQueue (emit [StatEndRun] s1)) = rng_view s1"
    by (simp add: clearEventQueue_rng) (simp add: rng_view_def emit_def drawn_append)
  then show ?thesis using c k
    by (cases r) (auto simp: endSingleRun_def intro: rc_right)
qed

lemma replica_rng:
  assumes "replica fuel endTick s = Some (x, s')"
  shows "rng_continues s s'"
proof -
  let ?s0 = "emit [RunBanner (actRuns s)] s"
  have v0: "rng_view ?s0 = rng_view s" by (simp add: rng_view_def emit_def drawn_append)
  obtain r1 s1 where i: "initSingleRun ?s0 = (r1, s1)" by (cases "initSingleRun ?s0")
  then have "rng_continues ?s0 s1" using initSingleRun_rng [of ?s0] by simp
  then have k1: "rng_continues s s1" using v0 by (rule rc_left [rotated])
  show ?thesis
  proof (cases r1)
    case (Some e)
    with i assms show ?thesis using k1 by (simp add: replica_def)
  next
    case None
    with i assms obtain r2 s2 where m: "main_cycle fuel endTick s1 = Some (r2, s2)"
      by (auto simp: replica_def split: option.splits)
    then have k2: "rng_continues s s2" using k1 main_cycle_rng rc_trans by blast
    show ?thesis
    proof (cases "r2 \<noteq> None \<and> r2 \<noteq> Some NoMoreEventsInQueue")
      case True
      with None i m assms show ?thesis using k2 by (auto simp: replica_def)
    next
      case False
      let ?s2 = "if r2 = None then s2 else emit [CerrNoMoreEvents (globTime s2)] s2"
      have v2: "rng_view ?s2 = rng_view s2" by (simp add: rng_view_def emit_def drawn_append)
      obtain r3 s3 where e: "endSingleRun ?s2 = (r3, s3)" by (cases "endSingleRun ?s2")
      then have "rng_continues ?s2 s3" using endSingleRun_rng [of ?s2] by simp
      then have "rng_continues s2 s3" using v2 by (rule rc_left [rotated])
      with k2 have k3: "rng_continues s s3" by (rule rc_trans)
      from False None i m e assms have "rng_view s' = rng_view s3"
        by (cases r3) (auto simp: replica_def rng_view_def)
      then show ?thesis using k3 by (rule rc_right)
    qed
  qed
qed

lemma replicas_rng: "replicas k fuel endTick s = Some (x, s') \<Longrightarrow> rng_continues s s'"
proof (induction k arbitrary: s)
  case 0
  then show ?case by (simp add: rc_same)
next
  case (Suc k)
  then obtain r s1 where r: "replica fuel endTick s = Some (r, s1)"
    by (auto split: option.splits)
  then have k1: "rng_continues s s1" by (rule replica_rng)
  show ?case
  proof (cases r)
    case None
    with r Suc.prems have "replicas k fuel endTick s1 = Some (x, s')" by simp
    then have "rng_continues s1 s'" by (rule Suc.IH)
    with k1 show ?thesis by (rule rc_trans)
  next
    case (Some e)
    with r Suc.prems show ?thesis using k1 by simp
  qed
qed

lemma run_decode_rng:
  "run_decode nRuns s = (i, t, n1, s1) \<Longrightarrow> rng_view s1 = rng_view s"
  by (auto simp: run_decode_def Let_def rng_view_def emit_def drawn_append split: if_splits)

lemma initRuns_rng: "rng_view (initRuns n s) = rng_view s"
  by (simp add: initRuns_def rng_view_def emit_def drawn_append)

lemma run_rng:
  assumes "run fuel endTick nRuns s = Some (x, s')"
  shows "rng_continues s s'"
proof -
  obtain i t n1 s1 where d: "run_decode nRuns s = (i, t, n1, s1)" by (cases "run_decode nRuns s")
  let ?s3 = "(if i then initRuns (int (numRuns s1)) s1 else s1)\<lparr>actRuns := 0\<rparr>"
  have v3: "rng_view ?s3 = rng_view s"
    using run_decode_rng [OF d] initRuns_rng [of "int (numRuns s1)" s1] by (simp add: rng_view_def)
  from assms d obtain r s4 where l: "replicas (numRuns ?s3 - actRuns ?s3) fuel endTick ?s3 = Some (r, s4)"
    by (auto simp: run_def Let_def split: option.splits)
  then have "rng_continues ?s3 s4" by (rule replicas_rng)
  then have k: "rng_continues s s4" using v3 by (rule rc_left [rotated])
  from assms d l have "rng_view s' = rng_view s4"
    by (cases r) (auto simp: run_def Let_def rng_view_def endSim_def emit_def drawn_append split: if_splits)
  then show ?thesis using k by (rule rc_right)
qed

text \<open>
  C6: \<^verbatim>\<open>initRuns\<close> leaves the generator as it is; the next replica starts from the state
  the replica before it ends with, and over a replica and over the whole of \<^verbatim>\<open>run\<close> the
  generator continues: the numbers that handlers and hooks draw are consecutive numbers
  of its sequence, its state is the one after them and its seed is unchanged (the
  driver never calls \<^verbatim>\<open>init\<close>; client code here draws and does not reseed); and a
  generator constructed with a seed and one initialised with it are the same, so they
  give the same samples.
\<close>

theorem run_never_reseeds:
  "stdgen (initRuns n s) = stdgen s
   \<and> (replica fuel endTick s = Some (None, s1) \<longrightarrow>
        replicas (Suc k) fuel endTick s = replicas k fuel endTick s1
        \<and> rng_continues s s1 \<and> seed (stdgen s1) = seed (stdgen s))
   \<and> (run fuel endTick nRuns s = Some (x, s') \<longrightarrow>
        rng_continues s s' \<and> seed (stdgen s') = seed (stdgen s))
   \<and> RandomGen_new sd = init sd g
   \<and> samples m (RandomGen_new sd) = samples m (init sd g)"
proof -
  have 1: "stdgen (initRuns n s) = stdgen s" using initRuns_rng [of n s] by (simp add: rng_view_def)
  have 2: "replicas (Suc k) fuel endTick s = replicas k fuel endTick s1
        \<and> rng_continues s s1 \<and> seed (stdgen s1) = seed (stdgen s)"
    if "replica fuel endTick s = Some (None, s1)"
    using that replica_rng [OF that] rc_seed by simp
  have 3: "rng_continues s s' \<and> seed (stdgen s') = seed (stdgen s)"
    if "run fuel endTick nRuns s = Some (x, s')"
    using run_rng [OF that] rc_seed by simp
  have 4: "RandomGen_new sd = init sd g" by (simp add: RandomGen_new_def init_def)
  from 1 2 3 4 show ?thesis by simp
qed

lemma rng_run:
  "map_option fst (run 10 20 3 scenario_rng) = Some None"
  "map_option (\<lambda>p. drawn (outp (snd p))) (run 10 20 3 scenario_rng) = Some (samples 12 (RandomGen_new 1))"
  "map_option (\<lambda>p. executed (outp (snd p))) (run 10 20 3 scenario_rng)
     = Some [(0, 0), (0, 7), (0, 14), (0, 21), (0, 0), (0, 7), (0, 14), (0, 21), (0, 0), (0, 7), (0, 14), (0, 21)]"
  by code_simp+

section \<open>Properties of the scheduling instruction and of run\<close>






lemma run_decode_table:
  "run_decode nRuns s = (i, t, n1, s1) \<Longrightarrow>
     (3 \<le> nRuns \<longrightarrow> i \<and> t \<and> numRuns s1 = nat nRuns)
     \<and> (nRuns = 2 \<longrightarrow> i \<and> t \<and> numRuns s1 = 3
           \<and> Cout ''Warning: Simulation cannot be initialized with 2 runs'' \<in> set (outp s1))
     \<and> (nRuns = 1 \<longrightarrow> i \<and> t \<and> numRuns s1 = 1)
     \<and> (nRuns = 0 \<longrightarrow> \<not> i \<and> t \<and> numRuns s1 = 1)
     \<and> (nRuns = - 1 \<longrightarrow> \<not> i \<and> \<not> t \<and> numRuns s1 = 1)
     \<and> (nRuns < - 1 \<longrightarrow> i \<and> \<not> t \<and> numRuns s1 = 1 \<and> n1 = - nRuns)"
  by (auto simp: run_decode_def Let_def emit_def split: if_splits)

lemma run_first_of_batch:
  "nRuns < - 1 \<longrightarrow>
     run fuel endTick nRuns s =
       (case replicas 1 fuel endTick
               ((initRuns 1 ((emit [Cout ''Initialize stats''] s)\<lparr>numRuns := 1\<rparr>))\<lparr>actRuns := 0\<rparr>) of
          None \<Rightarrow> None
        | Some (Some x, s4) \<Rightarrow> Some (Some x, s4)
        | Some (None, s4) \<Rightarrow> Some (None, s4\<lparr>endFlag := True\<rparr>))"
  by (auto simp add: run_def run_decode_def Let_def initRuns_def emit_def
      split: option.splits prod.splits)

lemma batch_run:
  "map_option fst (run 10 20 (- 5) scenario_rng) = Some None"
  "map_option (\<lambda>p. stat_inits (outp (snd p))) (run 10 20 (- 5) scenario_rng) = Some [1]"
  "map_option (\<lambda>p. actRuns (snd p)) (run 10 20 (- 5) scenario_rng) = Some 1"
  "map_option (\<lambda>p. StatEndSim \<in> set (outp (snd p))) (run 10 20 (- 5) scenario_rng) = Some False"
  by code_simp+

section \<open>The scenarios of the driver, run\<close>

theorem run_never_reseeds_witness:
  "\<exists>s'. run 10 20 3 scenario_rng = Some (None, s')
     \<and> rng_continues scenario_rng s'
     \<and> drawn (outp s') = samples 12 (RandomGen_new 1)
     \<and> stdgen s' = advance 12 (RandomGen_new 1)"
proof -
  obtain x s' where rs: "run 10 20 3 scenario_rng = Some (x, s')"
    using rng_run(1) by (cases "run 10 20 3 scenario_rng") auto
  with rng_run have x: "x = None" and d: "drawn (outp s') = samples 12 (RandomGen_new 1)"
    by simp_all
  have i: "stdgen scenario_rng = RandomGen_new 1" "drawn (outp scenario_rng) = []"
    by (simp_all add: scenario_rng_def Simulation_new_def)
  have c: "rng_continues scenario_rng s'"
    using run_never_reseeds [where fuel = 10 and endTick = 20 and s = scenario_rng
        and nRuns = 3 and x = x and s' = s'] rs by simp
  then have "stdgen s' = advance 12 (RandomGen_new 1)"
    using d i by (simp add: rng_continues_def Let_def length_samples)
  with rs x d c show ?thesis by simp
qed


section \<open>The modes of run\<close>

lemma driver_runs: "driver_view s' = driver_view s \<Longrightarrow>
    length (filter (\<lambda>x. x = StatEndSim) (outp s')) = length (filter (\<lambda>x. x = StatEndSim) (outp s))
    \<Longrightarrow> runs_view s' = runs_view s"
  by (simp add: driver_view_def runs_view_def)

lemma post_runs: "runs_view (snd (post a t d s)) = runs_view s"
  by (simp add: runs_view_def post_def Let_def)

lemma process_runs: "runs_view (snd (process a d s)) = runs_view s"
  by (simp add: runs_view_def ev_defs Let_def split: prod.splits option.splits)

lemma exec_op_runs: "runs_view (snd (exec_op x s)) = runs_view s"
proof (cases x)
  case (Post a t d) then show ?thesis by (simp add: post_runs)
next
  case (PostAfter a t d) then show ?thesis by (simp add: post_runs)
next
  case (Drop a) then show ?thesis by (simp add: runs_view_def ev_defs)
next
  case (Process a d) then show ?thesis by (simp add: process_runs)
next
  case (SetPriority a p) then show ?thesis by (simp add: runs_view_def ev_defs)
next
  case Draw then show ?thesis by (simp add: runs_view_def ev_defs stat_inits_append)
next
  case (Throw m) then show ?thesis by simp
qed

lemma exec_ops_runs: "runs_view (snd (exec_ops xs s)) = runs_view s"
proof (induction xs arbitrary: s)
  case Nil
  then show ?case by simp
next
  case (Cons x xs)
  show ?case
  proof (cases "exec_op x s")
    case (Pair r s1)
    then have k: "runs_view s1 = runs_view s" using exec_op_runs [of x s] by simp
    show ?thesis
    proof (cases r)
      case None
      with Pair show ?thesis using Cons.IH [of s1] k by simp
    next
      case (Some err)
      with Pair show ?thesis using k by simp
    qed
  qed
qed

lemma notify_runs: "runs_view (notify e s) = runs_view s"
proof -
  have "stat_inits (map (\<lambda>p. Probed p e t) ps) = []" for t ps by (induction ps) simp_all
  moreover have "filter (\<lambda>x. x = StatEndSim) (map (\<lambda>p. Probed p e t) ps) = []" for t ps
    by (induction ps) simp_all
  ultimately show ?thesis
    by (simp add: runs_view_def notify_def emit_def stat_inits_append)
qed

lemma action_runs: "runs_view (snd (action e s)) = runs_view s"
proof -
  let ?s1 = "upd e (\<lambda>ev. ev\<lparr>lastTime := time ev, isInQueue := False\<rparr>) s"
  have a: "runs_view ?s1 = runs_view s" by (simp add: runs_view_def upd_def)
  obtain r s2 where ex: "exec_ops (doit (events ?s1 e)) ?s1 = (r, s2)"
    by (cases "exec_ops (doit (events ?s1 e)) ?s1")
  then have b: "runs_view s2 = runs_view ?s1"
    using exec_ops_runs [of "doit (events ?s1 e)" ?s1] by simp
  show ?thesis using ex a b
    by (cases r) (simp_all add: action_def Let_def notify_runs)
qed

lemma fired_runs: "runs_view (fired e s) = runs_view s"
  by (simp add: runs_view_def fired_def setTime_def emit_def drop_event_def upd_def
      stat_inits_append)

lemma sim_step_runs: "runs_view (snd (sim_step s)) = runs_view s"
proof (cases "eventQueue s")
  case Nil
  then show ?thesis by (simp add: sim_step_def getFirst_def)
next
  case (Cons temp q)
  obtain x s3 where a: "action temp (fired temp s) = (x, s3)" by (cases "action temp (fired temp s)")
  then have "runs_view s3 = runs_view s"
    using action_runs [of temp "fired temp s"] fired_runs [of temp s] by simp
  then show ?thesis
    using a by (cases x) (simp_all add: sim_step_head [OF Cons] runs_view_def delete_event_def)
qed

lemma main_cycle_runs: "main_cycle n endTick s = Some (x, s1) \<Longrightarrow> runs_view s1 = runs_view s"
proof (induction n arbitrary: s)
  case 0
  then show ?case by simp
next
  case (Suc n)
  show ?case
  proof (cases "globTime s < endTick")
    case False
    with Suc.prems show ?thesis by simp
  next
    case True
    obtain r s2 where st: "sim_step s = (r, s2)" by (cases "sim_step s")
    then have k: "runs_view s2 = runs_view s" using sim_step_runs [of s] by simp
    show ?thesis
    proof (cases r)
      case (Inl e)
      with True st Suc.prems show ?thesis using k by simp
    next
      case (Inr t)
      with True st Suc.prems have "main_cycle n endTick (s2\<lparr>globTime := t\<rparr>) = Some (x, s1)" by simp
      then have "runs_view s1 = runs_view (s2\<lparr>globTime := t\<rparr>)" by (rule Suc.IH)
      then show ?thesis using k by (simp add: runs_view_def)
    qed
  qed
qed

lemma clear_loop_runs: "runs_view (clear_loop s) = runs_view s"
proof (induction s rule: clear_loop.induct)
  case (1 s)
  show ?case
  proof (cases "getFirst s")
    case None
    then show ?thesis by (subst clear_loop.simps) simp
  next
    case (Some temp)
    let ?s1 = "if disposable (events (drop_event temp s) temp)
             then delete_event temp (drop_event temp s) else drop_event temp s"
    have "runs_view ?s1 = runs_view s"
      by (simp add: runs_view_def delete_event_def drop_event_def upd_def)
    moreover have "clear_loop s = clear_loop ?s1" using Some by (subst clear_loop.simps) simp
    ultimately show ?thesis using "1.IH" [OF Some] by simp
  qed
qed

lemma clearEventQueue_runs: "runs_view (clearEventQueue s) = runs_view s"
  using clear_loop_runs [of s] by (simp add: clearEventQueue_def runs_view_def)

lemma call_hooks_runs: "runs_view (snd (call_hooks hs s)) = runs_view s"
proof (induction hs arbitrary: s)
  case Nil
  then show ?case by simp
next
  case (Cons h hs)
  obtain r s1 where ex: "exec_ops h s = (r, s1)" by (cases "exec_ops h s")
  then have k: "runs_view s1 = runs_view s" using exec_ops_runs [of h s] by simp
  show ?case
  proof (cases r)
    case None
    with ex show ?thesis using Cons.IH [of s1] k by simp
  next
    case (Some err)
    with ex show ?thesis using k by (simp add: clearEventQueue_runs)
  qed
qed

lemma initSingleRun_runs: "runs_view (snd (initSingleRun s)) = runs_view s"
proof -
  let ?s0 = "s\<lparr>globTime := 0\<rparr>"
  obtain r s1 where c: "callNewRun ?s0 = (r, s1)" by (cases "callNewRun ?s0")
  then have "runs_view s1 = runs_view ?s0" using call_hooks_runs [of "map fst (entities ?s0)" ?s0]
    by (simp add: callNewRun_def)
  then have k: "runs_view s1 = runs_view s" by (simp add: runs_view_def)
  show ?thesis using c k
    by (cases r) (simp_all add: initSingleRun_def runs_view_def emit_def stat_inits_append)
qed

lemma endSingleRun_runs: "runs_view (snd (endSingleRun s)) = runs_view s"
proof -
  obtain r s1 where c: "callEndRun s = (r, s1)" by (cases "callEndRun s")
  then have k: "runs_view s1 = runs_view s" using call_hooks_runs [of "map snd (entities s)" s]
    by (simp add: callEndRun_def)
  have "runs_view (clearEventQueue (emit [StatEndRun] s1)) = runs_view s1"
    by (simp add: clearEventQueue_runs) (simp add: runs_view_def emit_def stat_inits_append)
  then show ?thesis using c k
    by (cases r) (simp_all add: endSingleRun_def)
qed

lemma replica_runs:
  assumes "replica fuel endTick s = Some (None, s')"
  shows "runs_view s' = (numRuns s, actRuns s + 1, stat_inits (outp s),
           length (filter (\<lambda>x. x = StatEndSim) (outp s)))"
proof -
  let ?s0 = "emit [RunBanner (actRuns s)] s"
  have v0: "runs_view ?s0 = runs_view s" by (simp add: runs_view_def emit_def stat_inits_append)
  obtain r1 s1 where i: "initSingleRun ?s0 = (r1, s1)" by (cases "initSingleRun ?s0")
  then have k1: "runs_view s1 = runs_view s" using initSingleRun_runs [of ?s0] v0 by simp
  from i assms have n1: "r1 = None" by (cases r1) (auto simp: replica_def)
  with i assms obtain r2 s2 where m: "main_cycle fuel endTick s1 = Some (r2, s2)"
    by (auto simp: replica_def split: option.splits)
  then have k2: "runs_view s2 = runs_view s" using k1 main_cycle_runs by simp
  let ?s2 = "if r2 = None then s2 else emit [CerrNoMoreEvents (globTime s2)] s2"
  have v2: "runs_view ?s2 = runs_view s" using k2 by (simp add: runs_view_def emit_def stat_inits_append)
  obtain r3 s3 where e: "endSingleRun ?s2 = (r3, s3)" by (cases "endSingleRun ?s2")
  then have k3: "runs_view s3 = runs_view s" using endSingleRun_runs [of ?s2] v2 by simp
  from n1 i m e assms have "s' = s3\<lparr>actRuns := actRuns s3 + 1\<rparr>"
    by (cases r3) (auto simp: replica_def split: if_splits)
  then show ?thesis using k3 by (simp add: runs_view_def)
qed

lemma replicas_runs:
  "replicas k fuel endTick s = Some (None, s') \<Longrightarrow>
   runs_view s' = (numRuns s, actRuns s + k, stat_inits (outp s),
           length (filter (\<lambda>x. x = StatEndSim) (outp s)))"
proof (induction k arbitrary: s)
  case 0
  then show ?case by (simp add: runs_view_def)
next
  case (Suc k)
  then obtain r s1 where r: "replica fuel endTick s = Some (r, s1)"
    by (auto split: option.splits)
  with Suc.prems have n: "r = None" by (cases r) auto
  with r Suc.prems have "replicas k fuel endTick s1 = Some (None, s')" by simp
  then have "runs_view s' = (numRuns s1, actRuns s1 + k, stat_inits (outp s1),
           length (filter (\<lambda>x. x = StatEndSim) (outp s1)))" by (rule Suc.IH)
  then show ?case using replica_runs [OF r [unfolded n]] by (simp add: runs_view_def)
qed

lemma run_decode_modes:
  "run_decode nRuns s = (i, t, n1, s1) \<Longrightarrow>
     numRuns s1 = mode_runs nRuns \<and> (i \<longleftrightarrow> mode_inits nRuns \<noteq> []) \<and> (t \<longleftrightarrow> mode_terminates nRuns)
     \<and> actRuns s1 = actRuns s \<and> stat_inits (outp s1) = stat_inits (outp s)
     \<and> length (filter (\<lambda>x. x = StatEndSim) (outp s1)) = length (filter (\<lambda>x. x = StatEndSim) (outp s))"
  by (auto simp: run_decode_def Let_def emit_def mode_runs_def mode_inits_def mode_terminates_def
      stat_inits_append split: if_splits)

lemma run_mode_table:
  assumes "run fuel endTick nRuns s = Some (None, s')"
  shows "actRuns s' = mode_runs nRuns \<and> numRuns s' = mode_runs nRuns
     \<and> stat_inits (outp s') = stat_inits (outp s) @ mode_inits nRuns
     \<and> length (filter (\<lambda>x. x = StatEndSim) (outp s'))
         = length (filter (\<lambda>x. x = StatEndSim) (outp s)) + (if mode_terminates nRuns then 1 else 0)
     \<and> (nRuns < - 1 \<longrightarrow> mode_inits nRuns = [1])"
proof -
  obtain i t n1 s1 where d: "run_decode nRuns s = (i, t, n1, s1)" by (cases "run_decode nRuns s")
  note D = run_decode_modes [OF d]
  let ?s3 = "(if i then initRuns (int (numRuns s1)) s1 else s1)\<lparr>actRuns := 0\<rparr>"
  have v3: "runs_view ?s3 = (mode_runs nRuns, 0, stat_inits (outp s) @ mode_inits nRuns,
      length (filter (\<lambda>x. x = StatEndSim) (outp s)))"
    using D by (auto simp: runs_view_def initRuns_def emit_def stat_inits_append mode_inits_def)
  from assms d obtain r s4 where l: "replicas (numRuns ?s3 - actRuns ?s3) fuel endTick ?s3 = Some (r, s4)"
    by (auto simp: run_def Let_def split: option.splits)
  with assms d have r: "r = None" by (cases r) (auto simp: run_def Let_def)
  have n3: "numRuns ?s3 - actRuns ?s3 = mode_runs nRuns" using v3 by (simp add: runs_view_def)
  have v4: "runs_view s4 = (mode_runs nRuns, mode_runs nRuns, stat_inits (outp s) @ mode_inits nRuns,
      length (filter (\<lambda>x. x = StatEndSim) (outp s)))"
    using replicas_runs [OF l [unfolded r n3]] v3 by (simp add: runs_view_def)
  from assms d l r have s': "s' = (if t then endSim (s4\<lparr>endFlag := True\<rparr>) else s4\<lparr>endFlag := True\<rparr>)"
    by (auto simp: run_def Let_def)
  have "nRuns < - 1 \<longrightarrow> mode_inits nRuns = [1]" by (simp add: mode_inits_def mode_runs_def)
  then show ?thesis using v4 D
    by (auto simp: s' runs_view_def endSim_def emit_def stat_inits_append)
qed

text \<open>
  C5, as the code has it: a run that returns has executed \<^verbatim>\<open>nRuns\<close> replicas for
  \<^verbatim>\<open>nRuns \<ge> 3\<close>, three for \<^verbatim>\<open>nRuns = 2\<close> and one otherwise; it has called
  \<^verbatim>\<open>BaseStat::init\<close> once, with the number of replicas, except for \<^verbatim>\<open>nRuns = 0\<close> and
  \<^verbatim>\<open>nRuns = -1\<close>; and it has called \<^verbatim>\<open>endSim\<close> exactly for \<^verbatim>\<open>nRuns \<ge> 0\<close>. Where the code
  departs from the specification: for \<^verbatim>\<open>nRuns < -1\<close> the argument of \<^verbatim>\<open>BaseStat::init\<close> is 1, the
  value of \<^verbatim>\<open>numRuns\<close>, and not \<^verbatim>\<open>-nRuns\<close>, which is assigned to the local \<^verbatim>\<open>nRuns\<close> and
  never read.
\<close>

theorem run_modes:
  assumes "run fuel endTick nRuns s = Some (None, s')"
  shows "actRuns s' = (if 3 \<le> nRuns then nat nRuns else if nRuns = 2 then 3 else 1)
     \<and> stat_inits (outp s') = stat_inits (outp s) @
          (if nRuns = 0 \<or> nRuns = - 1 then []
           else if 3 \<le> nRuns then [nRuns] else if nRuns = 2 then [3] else [1])
     \<and> length (filter (\<lambda>x. x = StatEndSim) (outp s'))
         = length (filter (\<lambda>x. x = StatEndSim) (outp s)) + (if 0 \<le> nRuns then 1 else 0)
     \<and> (nRuns < - 1 \<longrightarrow> stat_inits (outp s') = stat_inits (outp s) @ [1])"
  using run_mode_table [OF assms]
  by (auto simp: mode_runs_def mode_inits_def mode_terminates_def)

lemma batch_run2:
  "map_option fst (run 10 20 2 scenario_rng) = Some None"
  "map_option (\<lambda>p. stat_inits (outp (snd p))) (run 10 20 2 scenario_rng) = Some [3]"
  "map_option (\<lambda>p. actRuns (snd p)) (run 10 20 2 scenario_rng) = Some 3"
  by code_simp+

theorem run_modes_witness:
  "(- 5::int) < - 1
   \<and> (\<exists>s'. run 10 20 (- 5) scenario_rng = Some (None, s')
         \<and> stat_inits (outp s') = [1] \<and> actRuns s' = 1 \<and> StatEndSim \<notin> set (outp s'))
   \<and> (\<exists>s'. run 10 20 2 scenario_rng = Some (None, s')
         \<and> stat_inits (outp s') = [3] \<and> actRuns s' = 3)"
proof -
  obtain x s1 where a: "run 10 20 (- 5) scenario_rng = Some (x, s1)"
    using batch_run(1) by (cases "run 10 20 (- 5) scenario_rng") auto
  with batch_run have x: "x = None" and e: "StatEndSim \<notin> set (outp s1)" by simp_all
  have i: "stat_inits (outp scenario_rng) = []" by (simp add: scenario_rng_def Simulation_new_def)
  have 1: "stat_inits (outp s1) = [1] \<and> actRuns s1 = 1"
    using run_modes [OF a [unfolded x]] i by simp
  obtain y s2 where b: "run 10 20 2 scenario_rng = Some (y, s2)"
    using batch_run2(1) by (cases "run 10 20 2 scenario_rng") auto
  with batch_run2 have y: "y = None" by simp
  have 2: "stat_inits (outp s2) = [3] \<and> actRuns s2 = 3"
    using run_modes [OF b [unfolded y]] i by simp
  from a x e 1 b y 2 show ?thesis by simp
qed

end
